theory Spec2Isabelle
  imports Complex_Main
begin

section \<open>Python values of the notebook\<close>

text \<open>
  The notebook \<^verbatim>\<open>03_factorization_machines_regression.ipynb\<close> is modelled cell by cell.
  Exceptions are values: every function that can raise returns \<open>exn + 'a\<close>, with
  \<open>Inl\<close> the exception that propagates.
\<close>

datatype exn =
    ZeroDivisionError
  | OverflowError
  | KeyError string
  | IndexError
  | ValueError
  | ServiceError string

text \<open>
  A binary64 value. Finite values are kept as the rational they denote, so that
  \<open>-0.0\<close> and \<open>0.0\<close> coincide, as they do under \<^verbatim>\<open>==\<close>.
\<close>

datatype float64 = Fin rat | PosInf | NegInf | NaN

text \<open>IEEE equality, the elementwise \<^verbatim>\<open>==\<close> of two float arrays: NaN equals nothing.\<close>

definition float_eq :: "float64 \<Rightarrow> float64 \<Rightarrow> bool" where
  "float_eq a b = (a \<noteq> NaN \<and> a = b)"

subsection \<open>Correctly rounded division\<close>

text \<open>
  \<open>lshift n d\<close> is the number of doublings of the numerator needed until the
  quotient reaches \<open>2^52\<close>; \<open>rshift n d\<close> the number of doublings of the
  denominator needed until the quotient drops below \<open>2^53\<close>.
\<close>

function lshift :: "nat \<Rightarrow> nat \<Rightarrow> nat" where
  "lshift n d = (if n = 0 \<or> 2 ^ 52 * d \<le> n then 0 else Suc (lshift (2 * n) d))"
  by pat_completeness auto
termination
  by (relation "measure (\<lambda>(n, d). 2 ^ 52 * d - n)") auto

function rshift :: "nat \<Rightarrow> nat \<Rightarrow> nat" where
  "rshift n d = (if d = 0 \<or> n < 2 ^ 53 * d then 0 else Suc (rshift n (2 * d)))"
  by pat_completeness auto
termination
  by (relation "measure (\<lambda>(n, d). n - d)") auto

declare lshift.simps [simp del] rshift.simps [simp del]

text \<open>The integer nearest to \<open>N / D\<close>, a tie going to the even neighbour.\<close>

definition round_half_even :: "nat \<Rightarrow> nat \<Rightarrow> nat" where
  "round_half_even N D =
     (let m = N div D; r = N mod D
      in if 2 * r < D then m
         else if D < 2 * r then m + 1
         else if even m then m else m + 1)"

text \<open>
  The binary64 nearest to \<open>n / d\<close> (round to nearest, ties to even), for \<open>d > 0\<close>:
  a 53-bit significand times a power of two, the exponent not below \<open>-1074\<close>
  (subnormal results have fewer significant bits). The exponent range is not capped
  above here; callers test the result against \<open>2^1024\<close>.
\<close>

definition float_div :: "nat \<Rightarrow> nat \<Rightarrow> rat" where
  "float_div n d =
     (if 2 ^ 53 * d \<le> n
      then (let k = rshift n d in of_nat (round_half_even n (d * 2 ^ k) * 2 ^ k))
      else (let k = min (lshift n d) 1074 in of_nat (round_half_even (n * 2 ^ k) d) / 2 ^ k))"

text \<open>The binary64 nearest to a natural number; itself a natural number.\<close>

definition float_of_nat :: "nat \<Rightarrow> nat" where
  "float_of_nat n =
     (if n < 2 ^ 53 then n
      else (let k = rshift n 1 in round_half_even n (2 ^ k) * 2 ^ k))"

subsection \<open>Dictionaries of the deserialised JSON response\<close>

type_synonym prediction = "string \<rightharpoonup> float64"
type_synonym response = "string \<rightharpoonup> prediction list"

text \<open>\<^verbatim>\<open>d[k]\<close> on a dict: a missing key raises \<^verbatim>\<open>KeyError\<close>.\<close>

definition getitem :: "(string \<rightharpoonup> 'v) \<Rightarrow> string \<Rightarrow> exn + 'v" where
  "getitem d k = (case d k of None \<Rightarrow> Inl (KeyError k) | Some v \<Rightarrow> Inr v)"

text \<open>\<^verbatim>\<open>xs[lo:hi]\<close> for non-negative bounds: both ends are clipped to the length.\<close>

definition py_slice :: "'a list \<Rightarrow> nat \<Rightarrow> nat \<Rightarrow> 'a list" where
  "py_slice xs lo hi = take (hi - lo) (drop lo xs)"

section \<open>Batched inference (cell 50)\<close>

text \<open>
  \<^verbatim>\<open>batches = int(X_pred.shape[0]/batch_size)\<close>: true division of two Python
  integers, correctly rounded to binary64, then truncated towards zero. The row count
  is a natural number; \<^verbatim>\<open>batch_size\<close> is whatever integer \<^verbatim>\<open>lines_prediction\<close> holds.
\<close>

definition batch_count :: "nat \<Rightarrow> int \<Rightarrow> exn + int" where
  "batch_count n batch_size =
     (if batch_size = 0 then Inl ZeroDivisionError
      else (let q = float_div n (nat \<bar>batch_size\<bar>)
            in if 2 ^ 1024 \<le> q then Inl OverflowError
               else Inr (if 0 < batch_size then \<lfloor>q\<rfloor> else - \<lfloor>q\<rfloor>)))"

text \<open>
  The endpoint is an external service: a call takes the batch and the service's state
  and returns the deserialised response, or raises, together with the new state.
\<close>

type_synonym ('row, 's) predictor = "'row list \<Rightarrow> 's \<Rightarrow> (exn + response) \<times> 's"

text \<open>
  The variables of the cell: the accumulator \<^verbatim>\<open>predictions\<close>, the service, and a log
  of every call made to \<^verbatim>\<open>fm_predictor.predict\<close> with what it gave back.
\<close>

record ('row, 's) run_state =
  predictions :: "float64 list"
  calls :: "('row list \<times> (exn + response)) list"
  service :: 's

text \<open>\<^verbatim>\<open>[r['predicted_label'] for r in ps]\<close>\<close>

fun predicted_labels :: "prediction list \<Rightarrow> exn + float64 list" where
  "predicted_labels [] = Inr []"
| "predicted_labels (r # rs) =
     (case getitem r ''predicted_label'' of
        Inl e \<Rightarrow> Inl e
      | Inr v \<Rightarrow> (case predicted_labels rs of Inl e \<Rightarrow> Inl e | Inr vs \<Rightarrow> Inr (v # vs)))"

text \<open>The body of the \<^verbatim>\<open>for i in range(batches)\<close> loop, over the remaining indices.\<close>

fun batch_loop ::
  "('row, 's) predictor \<Rightarrow> 'row list \<Rightarrow> nat \<Rightarrow> nat list \<Rightarrow> ('row, 's) run_state
     \<Rightarrow> (exn + unit) \<times> ('row, 's) run_state" where
  "batch_loop predict X_pred batch_size [] st = (Inr (), st)"
| "batch_loop predict X_pred batch_size (i # is) st =
     (let X_sample = py_slice X_pred (i * batch_size) ((i + 1) * batch_size)
      in case predict X_sample (service st) of
           (res, s') \<Rightarrow>
             (let st1 = st\<lparr>calls := calls st @ [(X_sample, res)], service := s'\<rparr>
              in case res of
                   Inl e \<Rightarrow> (Inl e, st1)
                 | Inr result \<Rightarrow>
                     (case getitem result ''predictions'' of
                        Inl e \<Rightarrow> (Inl e, st1)
                      | Inr ps \<Rightarrow>
                          (case predicted_labels ps of
                             Inl e \<Rightarrow> (Inl e, st1)
                           | Inr ls \<Rightarrow>
                               batch_loop predict X_pred batch_size is
                                 (st1\<lparr>predictions := predictions st1 @ ls\<rparr>)))))"

text \<open>
  The whole cell, which the specification calls \<open>runBatched\<close>. An iteration happens only
  when \<^verbatim>\<open>batches\<close> is positive, hence only for a positive \<^verbatim>\<open>batch_size\<close>, so the
  slice bounds are natural numbers. The result is \<^verbatim>\<open>np.array(predictions)\<close>, or the
  exception that ended the cell; the state is returned in both cases.
\<close>

definition runBatched ::
  "('row, 's) predictor \<Rightarrow> 'row list \<Rightarrow> int \<Rightarrow> 's
     \<Rightarrow> (exn + float64 list) \<times> ('row, 's) run_state" where
  "runBatched predict X_pred batch_size s0 =
     (let st0 = \<lparr>predictions = [], calls = [], service = s0\<rparr>
      in case batch_count (length X_pred) batch_size of
           Inl e \<Rightarrow> (Inl e, st0)
         | Inr batches \<Rightarrow>
             (case batch_loop predict X_pred (nat batch_size) [0..<nat batches] st0 of
                (Inl e, st) \<Rightarrow> (Inl e, st)
              | (Inr u, st) \<Rightarrow> (Inr (predictions st), st)))"

text \<open>Batch \<open>i\<close> of the loop: \<^verbatim>\<open>X_pred[(i*batch_size):((i+1)*batch_size)]\<close>.\<close>

definition batch_of :: "'row list \<Rightarrow> nat \<Rightarrow> nat \<Rightarrow> 'row list" where
  "batch_of X b i = py_slice X (i * b) ((i + 1) * b)"

text \<open>The results one logged call returned: \<^verbatim>\<open>result['predictions']\<close>, if there are any.\<close>

definition call_predictions :: "'row list \<times> (exn + response) \<Rightarrow> prediction list" where
  "call_predictions c =
     (case snd c of
        Inl e \<Rightarrow> []
      | Inr result \<Rightarrow> (case result ''predictions'' of None \<Rightarrow> [] | Some ps \<Rightarrow> ps))"

text \<open>A predictor whose responses have had every \<^verbatim>\<open>score\<close> entry deleted.\<close>

definition drop_score :: "('row, 's) predictor \<Rightarrow> ('row, 's) predictor" where
  "drop_score predict batch s =
     (case predict batch s of
        (res, s') \<Rightarrow>
          (map_sum id (\<lambda>result k. map_option (map (\<lambda>r. r(''score'' := None))) (result k)) res, s'))"

text \<open>
  A test double for the endpoint: it counts the calls made to it, raises \<open>e\<close> on call
  number \<open>k\<close> (counted from 0) and answers every other call with \<open>answer batch\<close>.
\<close>

definition raises_on_call ::
  "nat \<Rightarrow> exn \<Rightarrow> ('row list \<Rightarrow> response) \<Rightarrow> ('row, nat) predictor" where
  "raises_on_call k e answer batch n = (if n = k then Inl e else Inr (answer batch), Suc n)"

text \<open>The response \<^verbatim>\<open>{'predictions': [{'predicted_label': l, 'score': s}, ...]}\<close>.\<close>

definition mk_response :: "(float64 \<times> float64) list \<Rightarrow> response" where
  "mk_response rs =
     [''predictions'' \<mapsto> map (\<lambda>(l, s). [''predicted_label'' \<mapsto> l, ''score'' \<mapsto> s]) rs]"

text \<open>A stateless endpoint that answers each row on its own: \<open>f row\<close> is its label and score.\<close>

definition rowwise :: "('row \<Rightarrow> float64 \<times> float64) \<Rightarrow> ('row, 's) predictor" where
  "rowwise f batch s = (Inr (mk_response (map f batch)), s)"

text \<open>The integer part of \<open>float_div n d\<close>, computed on natural numbers.\<close>

definition float_div_trunc :: "nat \<Rightarrow> nat \<Rightarrow> nat" where
  "float_div_trunc n d =
     (if 2 ^ 53 * d \<le> n
      then (let k = rshift n d in round_half_even n (d * 2 ^ k) * 2 ^ k)
      else (let k = min (lshift n d) 1074 in round_half_even (n * 2 ^ k) d div 2 ^ k))"

section \<open>Accuracy (cell 53)\<close>

text \<open>
  \<^verbatim>\<open>Y_pred == predictions\<close> on two one-dimensional arrays. Equal lengths compare
  elementwise; an array of length 1 is broadcast against the other. For two lengths
  that do not broadcast, NumPy before 1.25 gives the scalar \<^verbatim>\<open>False\<close> (with a
  deprecation warning) and later versions raise \<^verbatim>\<open>ValueError\<close>; \<open>legacy\<close> selects
  between the two.
\<close>

datatype np_bool = BoolArray "bool list" | BoolScalar bool

definition np_equal :: "bool \<Rightarrow> float64 list \<Rightarrow> float64 list \<Rightarrow> exn + np_bool" where
  "np_equal legacy xs ys =
     (if length xs = length ys then Inr (BoolArray (map2 float_eq xs ys))
      else if length ys = 1 then Inr (BoolArray (map (\<lambda>x. float_eq x (ys ! 0)) xs))
      else if length xs = 1 then Inr (BoolArray (map (\<lambda>y. float_eq (xs ! 0) y) ys))
      else if legacy then Inr (BoolScalar False)
      else Inl ValueError)"

text \<open>\<^verbatim>\<open>np.sum\<close> of booleans counts the true ones.\<close>

fun np_sum :: "np_bool \<Rightarrow> nat" where
  "np_sum (BoolArray bs) = length (filter id bs)"
| "np_sum (BoolScalar b) = (if b then 1 else 0)"

text \<open>
  An \<^verbatim>\<open>int64\<close> scalar divided by a Python integer: both become binary64 and are
  divided there. Division by zero does not raise on NumPy scalars: it gives
  \<^verbatim>\<open>nan\<close> or \<^verbatim>\<open>inf\<close> with a warning.
\<close>

definition np_true_divide :: "nat \<Rightarrow> nat \<Rightarrow> float64" where
  "np_true_divide c n =
     (if n = 0 then (if c = 0 then NaN else PosInf)
      else Fin (float_div (float_of_nat c) (float_of_nat n)))"

text \<open>
  \<^verbatim>\<open>np.sum(Y_pred == predictions) / len(Y_pred)\<close>, which the specification calls
  \<open>computeAccuracy(predicted, actual)\<close>: \<^verbatim>\<open>predictions\<close> is the predicted sequence and
  \<^verbatim>\<open>Y_pred\<close> the actual one.
\<close>

definition computeAccuracy :: "bool \<Rightarrow> float64 list \<Rightarrow> float64 list \<Rightarrow> exn + float64" where
  "computeAccuracy legacy predictions_arr Y_pred =
     (case np_equal legacy Y_pred predictions_arr of
        Inl e \<Rightarrow> Inl e
      | Inr m \<Rightarrow> Inr (np_true_divide (np_sum m) (length Y_pred)))"

text \<open>
  The cell as a whole first evaluates \<^verbatim>\<open>predictions[0]\<close>, which raises
  \<^verbatim>\<open>IndexError\<close> on an empty array, and then the accuracy expression.
\<close>

definition cell_53 :: "bool \<Rightarrow> float64 list \<Rightarrow> float64 list \<Rightarrow> exn + float64" where
  "cell_53 legacy predictions_arr Y_pred =
     (if predictions_arr = [] then Inl IndexError
      else computeAccuracy legacy predictions_arr Y_pred)"

section \<open>Writing the training set (cell 35)\<close>

text \<open>
  An \<^verbatim>\<open>io.BytesIO\<close> object: its bytes and its stream position. \<^verbatim>\<open>seek\<close> sets the
  position; reading to the end returns the bytes from the position on and leaves the
  position at the end.
\<close>

record 'b bytesio =
  buf_data :: "'b list"
  buf_pos :: nat

definition BytesIO :: "'b bytesio" where
  "BytesIO = \<lparr>buf_data = [], buf_pos = 0\<rparr>"

definition seek :: "'b bytesio \<Rightarrow> nat \<Rightarrow> 'b bytesio" where
  "seek buf n = buf\<lparr>buf_pos := n\<rparr>"

definition read_to_end :: "'b bytesio \<Rightarrow> 'b list \<times> 'b bytesio" where
  "read_to_end buf =
     (drop (buf_pos buf) (buf_data buf), buf\<lparr>buf_pos := max (buf_pos buf) (length (buf_data buf))\<rparr>)"

text \<open>
  What a call can do to the outside world: network requests (an S3 upload, or any other)
  and disk reads and writes. The world holds the objects of the Python heap by
  reference (the matrix and the label vector among them), the contents of S3, and the
  log of every such event so far.
\<close>

datatype 'b io_event =
    S3Upload string string "'b list"
  | NetworkOther string
  | DiskRead string
  | DiskWrite string "'b list"

record ('o, 'b) world =
  objects :: "nat \<rightharpoonup> 'o"
  s3 :: "string \<times> string \<rightharpoonup> 'b list"
  io_log :: "'b io_event list"

text \<open>
  \<^verbatim>\<open>smac.write_spmatrix_to_sparse_tensor(buf, X, y)\<close> is a call into the SageMaker SDK:
  given the references \<open>X\<close> and \<open>y\<close> and the buffer, it returns the buffer as it has
  written it, or raises, and may in principle do anything to the world.
\<close>

type_synonym ('o, 'b) serialiser =
  "nat \<Rightarrow> nat \<Rightarrow> 'b bytesio \<Rightarrow> ('o, 'b) world \<Rightarrow> (exn option \<times> 'b bytesio) \<times> ('o, 'b) world"

text \<open>
  \<^verbatim>\<open>boto3.resource('s3').Bucket(bucket).Object(obj).upload_fileobj(buf)\<close> reads the
  buffer from its position to the end and sends it; \<open>accepts\<close> is the answer of the
  service (\<open>None\<close>, or the error it raises, as for an object that is too large). The
  request is made in both cases; the object is stored when it is accepted.
\<close>

definition upload_fileobj ::
  "(string \<Rightarrow> string \<Rightarrow> 'b list \<Rightarrow> exn option) \<Rightarrow> string \<Rightarrow> string \<Rightarrow> 'b bytesio
     \<Rightarrow> ('o, 'b) world \<Rightarrow> (exn option \<times> 'b bytesio) \<times> ('o, 'b) world" where
  "upload_fileobj accepts bucket obj buf w =
     (case read_to_end buf of
        (body, buf') \<Rightarrow>
          (let w1 = w\<lparr>io_log := io_log w @ [S3Upload bucket obj body]\<rparr>
           in case accepts bucket obj body of
                Some e \<Rightarrow> ((Some e, buf'), w1)
              | None \<Rightarrow> ((None, buf'), w1\<lparr>s3 := (s3 w1)((bucket, obj) \<mapsto> body)\<rparr>)))"

text \<open>The function of cell 35, statement by statement.\<close>

definition writeDatasetToProtobuf ::
  "('o, 'b) serialiser \<Rightarrow> (string \<Rightarrow> string \<Rightarrow> 'b list \<Rightarrow> exn option)
     \<Rightarrow> nat \<Rightarrow> nat \<Rightarrow> string \<Rightarrow> string \<Rightarrow> string \<Rightarrow> ('o, 'b) world
     \<Rightarrow> (exn + string) \<times> ('o, 'b) world" where
  "writeDatasetToProtobuf serialise accepts X y bucket prefix key w =
     (let buf = BytesIO
      in case serialise X y buf w of
           ((Some e, buf1), w1) \<Rightarrow> (Inl e, w1)
         | ((None, buf1), w1) \<Rightarrow>
             (let buf2 = seek buf1 0;
                  obj = prefix @ ''/'' @ key
              in case upload_fileobj accepts bucket obj buf2 w1 of
                   ((Some e, buf3), w2) \<Rightarrow> (Inl e, w2)
                 | ((None, buf3), w2) \<Rightarrow> (Inr (''s3://'' @ bucket @ ''/'' @ obj), w2)))"


section \<open>Auxiliary facts\<close>

lemma floor_rat_of_nat_div_pow2: "\<lfloor>(of_nat a :: rat) / 2 ^ k\<rfloor> = int (a div 2 ^ k)"
  using floor_divide_of_nat_eq [of a "2 ^ k", where ?'a = rat] by simp

lemma floor_float_div: "\<lfloor>float_div n d\<rfloor> = int (float_div_trunc n d)"
proof (cases "2 ^ 53 * d \<le> n")
  case True
  then show ?thesis
    unfolding float_div_def float_div_trunc_def Let_def by (simp only: if_True floor_of_nat)
next
  case False
  then show ?thesis
    unfolding float_div_def float_div_trunc_def Let_def
    by (simp only: if_False floor_rat_of_nat_div_pow2)
qed

lemma float_div_overflow_iff: "(2 ^ 1024 \<le> float_div n d) = (2 ^ 1024 \<le> float_div_trunc n d)"
proof -
  have "(2 ^ 1024 \<le> float_div n d) = ((2 ^ 1024 :: int) \<le> \<lfloor>float_div n d\<rfloor>)"
    by (simp add: le_floor_iff)
  also have "\<dots> = (2 ^ 1024 \<le> float_div_trunc n d)"
    unfolding floor_float_div by (metis of_nat_le_iff of_nat_numeral of_nat_power)
  finally show ?thesis .
qed

lemma batch_count_alt:
  "batch_count n b =
     (if b = 0 then Inl ZeroDivisionError
      else if 2 ^ 1024 \<le> float_div_trunc n (nat \<bar>b\<bar>) then Inl OverflowError
      else Inr (if 0 < b then int (float_div_trunc n (nat \<bar>b\<bar>))
                else - int (float_div_trunc n (nat \<bar>b\<bar>))))"
  unfolding batch_count_def Let_def float_div_overflow_iff floor_float_div by simp

lemma lshift_ge: "0 < n \<Longrightarrow> 2 ^ 52 * d \<le> n * 2 ^ lshift n d"
proof (induction n d rule: lshift.induct)
  case (1 n d)
  show ?case
  proof (cases "2 ^ 52 * d \<le> n")
    case True
    then show ?thesis by (subst lshift.simps) simp
  next
    case False
    with "1.prems" have "2 ^ 52 * d \<le> 2 * n * 2 ^ lshift (2 * n) d"
      by (intro "1.IH") auto
    moreover from False "1.prems" have "lshift n d = Suc (lshift (2 * n) d)"
      by (subst lshift.simps) simp
    ultimately show ?thesis by (simp add: mult.assoc)
  qed
qed

lemma lshift_lt: "n < 2 ^ 53 * d \<Longrightarrow> n * 2 ^ lshift n d < 2 ^ 53 * d"
proof (induction n d rule: lshift.induct)
  case (1 n d)
  show ?case
  proof (cases "n = 0 \<or> 2 ^ 52 * d \<le> n")
    case True
    then have "lshift n d = 0" by (subst lshift.simps) simp
    with "1.prems" show ?thesis by simp
  next
    case False
    then have "2 * n < 2 ^ 53 * d" by simp
    with False have "2 * n * 2 ^ lshift (2 * n) d < 2 ^ 53 * d"
      by (intro "1.IH") auto
    moreover from False have "lshift n d = Suc (lshift (2 * n) d)"
      by (subst lshift.simps) simp
    ultimately show ?thesis by (simp add: mult.assoc)
  qed
qed

lemma rshift_lt: "0 < d \<Longrightarrow> n < 2 ^ 53 * (d * 2 ^ rshift n d)"
proof (induction n d rule: rshift.induct)
  case (1 n d)
  show ?case
  proof (cases "n < 2 ^ 53 * d")
    case True
    then have "rshift n d = 0" by (subst rshift.simps) simp
    with True show ?thesis by simp
  next
    case False
    with "1.prems" have "n < 2 ^ 53 * (2 * d * 2 ^ rshift n (2 * d))"
      by (intro "1.IH") auto
    moreover from False "1.prems" have "rshift n d = Suc (rshift n (2 * d))"
      by (subst rshift.simps) simp
    ultimately show ?thesis by (simp add: mult.assoc)
  qed
qed

lemma rshift_ge: "2 ^ 52 * d \<le> n \<Longrightarrow> 2 ^ 52 * (d * 2 ^ rshift n d) \<le> n"
proof (induction n d rule: rshift.induct)
  case (1 n d)
  show ?case
  proof (cases "d = 0 \<or> n < 2 ^ 53 * d")
    case True
    then have "rshift n d = 0" by (subst rshift.simps) simp
    with "1.prems" show ?thesis by simp
  next
    case False
    then have "2 ^ 52 * (2 * d) \<le> n" by simp
    with False have "2 ^ 52 * (2 * d * 2 ^ rshift n (2 * d)) \<le> n"
      by (intro "1.IH") auto
    moreover from False have "rshift n d = Suc (rshift n (2 * d))"
      by (subst rshift.simps) simp
    ultimately show ?thesis by (simp add: mult.assoc)
  qed
qed

lemma round_half_even_cases:
  "round_half_even N D = N div D \<or>
   (round_half_even N D = N div D + 1 \<and> D \<le> 2 * (N mod D))"
  by (auto simp: round_half_even_def Let_def)

text \<open>Rounding moves by at most half a unit.\<close>

lemma round_half_even_nearest:
  assumes "0 < D"
  shows "2 * (round_half_even N D * D) \<le> 2 * N + D" and "2 * N \<le> 2 * (round_half_even N D * D) + D"
proof -
  define q r where "q = N div D" and "r = N mod D"
  have N: "N = q * D + r" by (simp add: q_def r_def)
  from assms have r: "r < D" by (simp add: r_def)
  have "round_half_even N D = q \<and> 2 * r \<le> D \<or> round_half_even N D = q + 1 \<and> D \<le> 2 * r"
    by (auto simp: round_half_even_def Let_def q_def r_def)
  then show "2 * (round_half_even N D * D) \<le> 2 * N + D"
    and "2 * N \<le> 2 * (round_half_even N D * D) + D"
    using r by (auto simp: N algebra_simps)
qed

lemma round_half_even_ge: "N div D \<le> round_half_even N D"
  using round_half_even_cases [of N D] by auto

lemma round_half_even_exact: "D dvd N \<Longrightarrow> 0 < D \<Longrightarrow> round_half_even N D = N div D"
  by (auto simp: round_half_even_def Let_def)

lemma round_half_even_le:
  assumes "0 < D" "N \<le> K * D"
  shows "round_half_even N D \<le> K"
proof (cases "N div D < K")
  case True
  then show ?thesis using round_half_even_cases [of N D] by auto
next
  case False
  from assms have "N div D \<le> K"
    by (metis div_le_mono nonzero_mult_div_cancel_right less_numeral_extra(3))
  with False have eq: "N div D = K" by simp
  have "N = N div D * D + N mod D" by simp
  with eq assms have "N mod D = 0" by (metis add_le_same_cancel1 le_zero_eq)
  with eq assms show ?thesis by (simp add: round_half_even_def Let_def)
qed

lemma round_half_even_lower:
  assumes "0 < D" "K * D \<le> N"
  shows "K \<le> round_half_even N D"
proof -
  from assms have "K \<le> N div D"
    by (metis div_le_mono nonzero_mult_div_cancel_right less_numeral_extra(3))
  then show ?thesis using round_half_even_ge [of N D] by simp
qed

lemma round_half_even_less:
  assumes "0 < D" "N + s \<le> K * D" "D < 2 * s"
  shows "round_half_even N D < K"
proof -
  have split: "N = N div D * D + N mod D" by simp
  from assms have "N < K * D" by simp
  then have lt: "N div D < K"
    using assms(1) by (simp add: less_mult_imp_div_less)
  show ?thesis
  proof (cases "Suc (N div D) < K")
    case True
    then show ?thesis using round_half_even_cases [of N D] by auto
  next
    case False
    with lt have K: "K = Suc (N div D)" by simp
    have "N mod D + s \<le> D"
    proof -
      define m r where "m = N div D" and "r = N mod D"
      have "N = m * D + r" by (simp add: m_def r_def)
      moreover have "K * D = m * D + D" by (simp add: K m_def)
      ultimately have "m * D + r + s \<le> m * D + D" using assms(2) by simp
      then show ?thesis by (simp add: r_def)
    qed
    with assms(3) have "2 * (N mod D) < D" by simp
    then have "round_half_even N D = N div D"
      by (simp add: round_half_even_def Let_def)
    with K show ?thesis by simp
  qed
qed

lemma predicted_labels_Inr:
  "predicted_labels ps = Inr ls \<longleftrightarrow> map (\<lambda>r. r ''predicted_label'') ps = map Some ls"
proof (induction ps arbitrary: ls)
  case Nil
  show ?case by auto
next
  case (Cons r rs)
  show ?case
  proof (cases "r ''predicted_label''")
    case None
    then show ?thesis by (cases ls) (auto simp: getitem_def)
  next
    case (Some v)
    show ?thesis
    proof (cases "predicted_labels rs")
      case (Inl e)
      with Cons.IH have "\<And>vs. map (\<lambda>r. r ''predicted_label'') rs \<noteq> map Some vs" by simp
      with Inl Some show ?thesis by (cases ls) (auto simp: getitem_def)
    next
      case (Inr vs)
      with Cons.IH [of vs] have "map (\<lambda>r. r ''predicted_label'') rs = map Some vs" by simp
      with Inr Some show ?thesis by (cases ls) (auto simp: getitem_def)
    qed
  qed
qed

lemma batch_loop_step:
  "batch_loop predict X b (i # is) st =
     (let st1 = st\<lparr>calls := calls st @ [(batch_of X b i, fst (predict (batch_of X b i) (service st)))],
                    service := snd (predict (batch_of X b i) (service st))\<rparr>
      in case fst (predict (batch_of X b i) (service st)) of
           Inl e \<Rightarrow> (Inl e, st1)
         | Inr result \<Rightarrow>
             (case result ''predictions'' of
                None \<Rightarrow> (Inl (KeyError ''predictions''), st1)
              | Some ps \<Rightarrow>
                  (case predicted_labels ps of
                     Inl e \<Rightarrow> (Inl e, st1)
                   | Inr ls \<Rightarrow> batch_loop predict X b is (st1\<lparr>predictions := predictions st1 @ ls\<rparr>))))"
  by (simp add: batch_of_def getitem_def Let_def split: prod.splits sum.splits option.splits)

lemma batch_loop_append:
  "batch_loop predict X b (as @ bs) st =
     (case batch_loop predict X b as st of
        (Inl e, t) \<Rightarrow> (Inl e, t)
      | (Inr u, t) \<Rightarrow> batch_loop predict X b bs t)"
proof (induction as arbitrary: st)
  case Nil
  show ?case by simp
next
  case (Cons i as)
  show ?case
    unfolding append_Cons batch_loop_step Let_def
    by (simp add: Cons.IH split: sum.splits option.splits)
qed

text \<open>A run that completes: every call is answered with one label per result.\<close>

lemma batch_loop_completes:
  assumes "\<And>batch s. \<exists>result ps. fst (predict batch s) = Inr result \<and>
             result ''predictions'' = Some ps \<and>
             map (\<lambda>r. r ''predicted_label'') ps = map Some (lab batch)"
  shows "\<exists>st'. batch_loop predict X b is st = (Inr (), st') \<and>
           predictions st' = predictions st @ concat (map (\<lambda>i. lab (batch_of X b i)) is) \<and>
           map fst (calls st') = map fst (calls st) @ map (batch_of X b) is"
proof (induction "is" arbitrary: st)
  case Nil
  show ?case by simp
next
  case (Cons i "is")
  from assms [of "batch_of X b i" "service st"] obtain result ps where
    r: "fst (predict (batch_of X b i) (service st)) = Inr result"
       "result ''predictions'' = Some ps"
       "predicted_labels ps = Inr (lab (batch_of X b i))"
    by (auto simp: predicted_labels_Inr)
  define st2 where "st2 = st\<lparr>calls := calls st @ [(batch_of X b i, Inr result)],
      service := snd (predict (batch_of X b i) (service st)),
      predictions := predictions st @ lab (batch_of X b i)\<rparr>"
  have step: "batch_loop predict X b (i # is) st = batch_loop predict X b is st2"
    unfolding batch_loop_step Let_def st2_def by (simp add: r)
  from Cons.IH [of st2] obtain st' where
    "batch_loop predict X b is st2 = (Inr (), st')"
    "predictions st' = predictions st2 @ concat (map (\<lambda>i. lab (batch_of X b i)) is)"
    "map fst (calls st') = map fst (calls st2) @ map (batch_of X b) is"
    by blast
  then show ?case
    unfolding step by (simp add: st2_def)
qed

lemma concat_batches: "concat (map (batch_of X b) [0..<k]) = take (k * b) X"
proof (induction k)
  case 0
  show ?case by simp
next
  case (Suc k)
  have "Suc k * b = k * b + b" by simp
  then have "take (Suc k * b) X = take (k * b) X @ take b (drop (k * b) X)"
    by (simp only: take_add)
  moreover have "batch_of X b k = take b (drop (k * b) X)"
    by (simp add: batch_of_def py_slice_def)
  ultimately show ?case using Suc by simp
qed

lemma batch_of_nth:
  assumes "(i + 1) * b \<le> length X"
  shows "batch_of X b i = map ((!) X) [i * b ..< (i + 1) * b]"
proof -
  have "take b (drop (i * b) X) = map ((!) X) [i * b ..< i * b + b]"
    using assms by (intro nth_equalityI) (auto simp: add.commute)
  moreover have "(i + 1) * b = i * b + b" by simp
  ultimately show ?thesis by (simp only: batch_of_def py_slice_def diff_add_inverse)
qed

lemma batch_loop_labels:
  assumes "batch_loop predict X b is st = (Inr u, st')"
    and "map Some (predictions st) =
           map (\<lambda>r. r ''predicted_label'') (concat (map call_predictions (calls st)))"
  shows "map Some (predictions st') =
           map (\<lambda>r. r ''predicted_label'') (concat (map call_predictions (calls st')))"
  using assms
proof (induction "is" arbitrary: st)
  case Nil
  then show ?case by simp
next
  case (Cons i "is")
  from Cons.prems(1) obtain result ps ls where
    r: "fst (predict (batch_of X b i) (service st)) = Inr result"
       "result ''predictions'' = Some ps" "predicted_labels ps = Inr ls"
    unfolding batch_loop_step Let_def by (auto split: sum.splits option.splits)
  define st2 where "st2 = st\<lparr>calls := calls st @ [(batch_of X b i, Inr result)],
      service := snd (predict (batch_of X b i) (service st)),
      predictions := predictions st @ ls\<rparr>"
  have step: "batch_loop predict X b (i # is) st = batch_loop predict X b is st2"
    unfolding batch_loop_step Let_def st2_def by (simp add: r)
  have "map Some (predictions st2) =
          map (\<lambda>r. r ''predicted_label'') (concat (map call_predictions (calls st2)))"
  proof -
    have "call_predictions (batch_of X b i, Inr result) = ps"
      by (simp add: call_predictions_def r)
    moreover have "map Some ls = map (\<lambda>r. r ''predicted_label'') ps"
      using r(3) by (simp add: predicted_labels_Inr)
    ultimately show ?thesis using Cons.prems(2) by (simp add: st2_def)
  qed
  with Cons.IH [of st2] Cons.prems(1) show ?case
    unfolding step by simp
qed

lemma predicted_labels_drop_score:
  "predicted_labels (map (\<lambda>r. r(''score'' := None)) ps) = predicted_labels ps"
  by (induction ps) (auto simp: getitem_def split: option.splits sum.splits)

lemma batch_loop_drop_score:
  assumes "predictions st = predictions st'" "service st = service st'"
  shows "fst (batch_loop (drop_score predict) X b is st) = fst (batch_loop predict X b is st') \<and>
         predictions (snd (batch_loop (drop_score predict) X b is st)) =
         predictions (snd (batch_loop predict X b is st'))"
  using assms
proof (induction "is" arbitrary: st st')
  case Nil
  then show ?case by simp
next
  case (Cons i "is")
  let ?c = "predict (batch_of X b i) (service st')"
  have c: "drop_score predict (batch_of X b i) (service st) =
      (map_sum id (\<lambda>result k. map_option (map (\<lambda>r. r(''score'' := None))) (result k)) (fst ?c), snd ?c)"
    by (simp add: drop_score_def Cons.prems split: prod.splits)
  show ?case
  proof (cases "fst ?c")
    case (Inl e)
    then show ?thesis unfolding batch_loop_step Let_def c by (simp add: Cons.prems)
  next
    case (Inr result)
    show ?thesis
    proof (cases "result ''predictions''")
      case None
      with Inr show ?thesis unfolding batch_loop_step Let_def c by (simp add: Cons.prems)
    next
      case (Some ps)
      show ?thesis
      proof (cases "predicted_labels ps")
        case (Inl e)
        with Inr Some show ?thesis
          unfolding batch_loop_step Let_def c by (simp add: predicted_labels_drop_score Cons.prems)
      next
        case ls: (Inr ls)
        with Inr Some show ?thesis
          unfolding batch_loop_step Let_def c
          by (simp add: predicted_labels_drop_score Cons.prems) (rule Cons.IH, simp_all add: Cons.prems)
      qed
    qed
  qed
qed

lemma fst_runBatched:
  "fst (runBatched predict X b s0) =
     (case batch_count (length X) b of
        Inl e \<Rightarrow> Inl e
      | Inr batches \<Rightarrow>
          (case batch_loop predict X (nat b) [0..<nat batches]
                  \<lparr>predictions = [], calls = [], service = s0\<rparr> of
             (Inl e, st) \<Rightarrow> Inl e
           | (Inr u, st) \<Rightarrow> Inr (predictions st)))"
  by (simp add: runBatched_def Let_def split: sum.splits prod.splits)

lemma float_div_trunc_small:
  assumes n: "n < 2 ^ 53" and d: "0 < d"
  shows "float_div_trunc n d = n div d"
proof -
  define k where "k = min (lshift n d) 1074"
  define p :: nat where "p = 2 ^ k"
  define m where "m = round_half_even (n * p) d"
  define q where "q = n div d"
  have p: "0 < p" by (simp add: p_def)
  from n d have "n < 2 ^ 53 * d"
    by (metis mult.right_neutral mult_le_mono2 Suc_leI One_nat_def order_less_le_trans)
  then have nb: "\<not> 2 ^ 53 * d \<le> n" by simp
  have trunc: "float_div_trunc n d = m div p"
    unfolding float_div_trunc_def Let_def m_def p_def k_def using nb by simp
  have "q * d \<le> n" by (simp add: q_def)
  then have "q * d * p \<le> n * p" by (rule mult_le_mono1)
  then have "q * p * d \<le> n * p" by (simp add: mult.commute mult.left_commute)
  from round_half_even_lower [OF d this] have "q * p \<le> m" by (simp add: m_def)
  then have "q * p div p \<le> m div p" by (rule div_le_mono)
  with p have lower: "q \<le> m div p" by simp
  have "m < (q + 1) * p"
  proof (cases "n = 0")
    case True
    with d have "m = 0" by (simp add: m_def round_half_even_def)
    with p show ?thesis by simp
  next
    case False
    then have npos: "0 < n" by simp
    show ?thesis
    proof (cases "lshift n d \<le> 1074")
      case True
      then have k: "k = lshift n d" by (simp add: k_def)
      from lshift_ge [OF npos, of d] have ge: "2 ^ 52 * d \<le> n * p" by (simp add: p_def k)
      from n p have "n * p < 2 ^ 53 * p" by simp
      with ge have "2 ^ 52 * d < 2 ^ 53 * p" by (rule le_less_trans)
      then have dp: "d < 2 * p" by simp
      have "n < (q + 1) * d"
        unfolding q_def using dividend_less_times_div [OF d, of n] by (simp add: algebra_simps)
      then have "n + 1 \<le> (q + 1) * d" by simp
      then have "(n + 1) * p \<le> (q + 1) * d * p" by (rule mult_le_mono1)
      then have "n * p + p \<le> (q + 1) * p * d"
        by (simp add: algebra_simps)
      from round_half_even_less [OF d this dp] show ?thesis by (simp add: m_def)
    next
      case False
      then have k: "k = 1074" and L: "1075 \<le> lshift n d" by (simp_all add: k_def)
      from L have "n * (2::nat) ^ 1075 \<le> n * 2 ^ lshift n d"
        by (intro mult_le_mono2 power_increasing) simp_all
      also from lshift_lt [OF \<open>n < 2 ^ 53 * d\<close>] have "n * 2 ^ lshift n d < 2 ^ 53 * d" .
      finally have "n * (2::nat) ^ 1075 < 2 ^ 53 * d" .
      moreover have "(2::nat) ^ 1075 = 2 * 2 ^ 1074" by (simp only: power_Suc [symmetric]) simp
      then have "n * (2::nat) ^ 1075 = 2 * (n * p)" by (simp only: p_def k)
      moreover have "(2::nat) ^ 53 * d = 2 * (2 ^ 52 * d)" by simp
      ultimately have "2 * (n * p) < 2 * (2 ^ 52 * d)" by (simp only:)
      then have "n * p \<le> 2 ^ 52 * d" by linarith
      from round_half_even_le [OF d this] have "m \<le> 2 ^ 52" by (simp add: m_def)
      moreover have "(2::nat) ^ 52 < p"
        unfolding p_def k by (rule power_strict_increasing) simp_all
      moreover have "p \<le> (q + 1) * p" by simp
      ultimately show ?thesis by linarith
    qed
  qed
  with p have "m div p < q + 1" by (simp add: less_mult_imp_div_less)
  with lower show ?thesis by (simp add: trunc q_def)
qed

lemma batch_count_small:
  assumes "0 < b" "n < 2 ^ 53"
  shows "batch_count n b = Inr (int (n div nat b))"
proof -
  from assms have t: "float_div_trunc n (nat \<bar>b\<bar>) = n div nat b"
    by (simp add: float_div_trunc_small)
  have "n div nat b \<le> n" by simp
  also note \<open>n < 2 ^ 53\<close>
  also have "(2::nat) ^ 53 < 2 ^ 1024"
    by (rule power_strict_increasing) simp_all
  finally have "\<not> 2 ^ 1024 \<le> n div nat b" by simp
  with assms t show ?thesis by (simp add: batch_count_alt)
qed

lemma float_div_trunc_exact:
  assumes d: "0 < d" and m: "m < 2 ^ 53" and a: "a \<le> 1074"
    and eq: "n * 2 ^ a = m * 2 ^ c * d"
  shows "float_div_trunc n d = n div d"
proof (cases "2 ^ 53 * d \<le> n")
  case True
  define k where "k = rshift n d"
  have trunc: "float_div_trunc n d = round_half_even n (d * 2 ^ k) * 2 ^ k"
    unfolding float_div_trunc_def Let_def k_def using True by simp
  from True have "2 ^ 52 * d \<le> n" by simp
  from rshift_ge [OF this] have ge: "2 ^ 52 * (d * 2 ^ k) \<le> n" by (simp add: k_def)
  have "2 ^ 52 * (d * 2 ^ k) * 2 ^ a \<le> n * 2 ^ a"
    using ge by (rule mult_le_mono1)
  also have "\<dots> = m * 2 ^ c * d" by (rule eq)
  also have "\<dots> < 2 ^ 53 * 2 ^ c * d"
    using m d by simp
  finally have "(2 ^ 52 * 2 ^ (k + a)) * d < (2 ^ 53 * 2 ^ c) * d"
    by (simp add: power_add mult_ac)
  then have "(2::nat) ^ 52 * 2 ^ (k + a) < 2 ^ 53 * 2 ^ c" by simp
  then have "(2::nat) ^ (52 + (k + a)) < 2 ^ (53 + c)" by (simp only: power_add)
  then have "52 + (k + a) < 53 + c" by simp
  then have kc: "k + a \<le> c" by simp
  define j where "j = m * 2 ^ (c - (k + a))"
  have "(2::nat) ^ c = 2 ^ (c - (k + a)) * 2 ^ k * 2 ^ a"
    using kc by (simp add: power_add [symmetric])
  then have "n * 2 ^ a = (j * (d * 2 ^ k)) * 2 ^ a"
    unfolding eq j_def by (simp add: mult_ac)
  then have n: "n = j * (d * 2 ^ k)" by simp
  have "round_half_even n (d * 2 ^ k) = j"
    using d by (simp add: n round_half_even_exact)
  moreover have "n div d = j * 2 ^ k"
    using d by (simp add: n)
  ultimately show ?thesis by (simp add: trunc)
next
  case False
  define k where "k = min (lshift n d) 1074"
  have trunc: "float_div_trunc n d = round_half_even (n * 2 ^ k) d div 2 ^ k"
    unfolding float_div_trunc_def Let_def k_def using False by simp
  have dvd: "d dvd n * 2 ^ k"
  proof (cases "a \<le> c")
    case True
    then have "(2::nat) ^ c = 2 ^ (c - a) * 2 ^ a" by (simp add: power_add [symmetric])
    then have "n * 2 ^ a = (m * 2 ^ (c - a) * d) * 2 ^ a"
      unfolding eq by (simp add: mult_ac)
    then have "n = m * 2 ^ (c - a) * d" by simp
    then show ?thesis by simp
  next
    case ac: False
    define t where "t = a - c"
    from ac have "(2::nat) ^ a = 2 ^ t * 2 ^ c" by (simp add: t_def power_add [symmetric])
    then have "(n * 2 ^ t) * 2 ^ c = (m * d) * 2 ^ c"
      using eq by (simp add: mult_ac)
    then have nt: "n * 2 ^ t = m * d" by simp
    show ?thesis
    proof (cases "n = 0")
      case True
      then show ?thesis by simp
    next
      case False
      then have npos: "0 < n" by simp
      have "t \<le> k"
      proof (rule ccontr)
        assume "\<not> t \<le> k"
        moreover have "t \<le> 1074" using a by (simp add: t_def)
        ultimately have L: "lshift n d < t" by (simp add: k_def)
        from lshift_ge [OF npos, of d] have "2 ^ 52 * d \<le> n * 2 ^ lshift n d" .
        then have "2 ^ 52 * d * 2 ^ (t - lshift n d) \<le> n * 2 ^ lshift n d * 2 ^ (t - lshift n d)"
          by (rule mult_le_mono1)
        also have "\<dots> = n * 2 ^ t"
          using L by (simp add: power_add [symmetric] mult.assoc)
        also have "\<dots> = m * d" by (rule nt)
        also have "\<dots> < 2 ^ 53 * d" using m d by simp
        finally have "(2 ^ 52 * 2 ^ (t - lshift n d)) * d < 2 ^ 53 * d" by (simp add: mult_ac)
        then have "(2::nat) ^ 52 * 2 ^ (t - lshift n d) < 2 ^ 53" by simp
        then have "(2::nat) ^ (52 + (t - lshift n d)) < 2 ^ 53" by (simp only: power_add)
        then have "52 + (t - lshift n d) < 53"
          by (simp only: power_strict_increasing_iff one_less_numeral_iff semiring_norm(76))
        with L show False by simp
      qed
      then have "(2::nat) ^ k = 2 ^ t * 2 ^ (k - t)" by (simp add: power_add [symmetric])
      then have "n * 2 ^ k = (n * 2 ^ t) * 2 ^ (k - t)" by (simp add: mult_ac)
      then show ?thesis by (simp add: nt)
    qed
  qed
  from dvd d have "round_half_even (n * 2 ^ k) d = n * 2 ^ k div d"
    by (rule round_half_even_exact)
  moreover have "n * 2 ^ k div d div 2 ^ k = n * 2 ^ k div (d * 2 ^ k)"
    by (simp add: div_mult2_eq)
  moreover have "n * 2 ^ k div (d * 2 ^ k) = n div d" by simp
  ultimately show ?thesis by (simp add: trunc)
qed


lemma batch_count_exact:
  assumes b: "0 < b" and m: "m < 2 ^ 53" and a: "a \<le> 1074" and c: "c \<le> 971"
    and eq: "n * 2 ^ a = m * 2 ^ c * b"
  shows "batch_count n (int b) = Inr (int (n div b))"
proof -
  from float_div_trunc_exact [OF b m a eq] have t: "float_div_trunc n b = n div b" .
  have "n \<le> n * 2 ^ a" by simp
  also have "\<dots> = m * 2 ^ c * b" by (rule eq)
  also have "\<dots> < 2 ^ 53 * 2 ^ c * b" using m b by simp
  also have "\<dots> \<le> 2 ^ 53 * 2 ^ 971 * b"
    using c by (intro mult_le_mono1 mult_le_mono2 power_increasing) simp_all
  also have "\<dots> = 2 ^ 1024 * b" by (simp only: power_add [symmetric]) simp
  finally have "n div b < 2 ^ 1024"
    using b by (simp add: less_mult_imp_div_less)
  with t b show ?thesis by (simp add: batch_count_alt)
qed

lemma round_half_even_mono:
  assumes "0 < D" "N \<le> N'"
  shows "round_half_even N D \<le> round_half_even N' D"
proof (cases "N div D < N' div D")
  case True
  have "round_half_even N D \<le> N div D + 1"
    using round_half_even_cases [of N D] by auto
  also from True have "\<dots> \<le> N' div D" by simp
  also have "\<dots> \<le> round_half_even N' D" by (rule round_half_even_ge)
  finally show ?thesis .
next
  case False
  moreover from assms(2) have "N div D \<le> N' div D" by (rule div_le_mono)
  ultimately have q: "N' div D = N div D" by simp
  define A where "A = N div D * D"
  have "N = A + N mod D" by (simp add: A_def)
  moreover have "N' = N' div D * D + N' mod D" by simp
  then have "N' = A + N' mod D" by (simp only: q A_def)
  ultimately have "N mod D \<le> N' mod D" using assms(2) by linarith
  then show ?thesis
    by (auto simp: round_half_even_def Let_def q)
qed

lemma float_of_nat_small: "n < 2 ^ 53 \<Longrightarrow> float_of_nat n = n"
  by (simp add: float_of_nat_def)

lemma float_of_nat_large:
  assumes "2 ^ 53 \<le> n"
  shows "float_of_nat n = round_half_even n (2 ^ rshift n 1) * 2 ^ rshift n 1"
    and "2 ^ 52 * 2 ^ rshift n 1 \<le> n" and "n < 2 ^ 53 * 2 ^ rshift n 1"
    and "2 ^ 52 * 2 ^ rshift n 1 \<le> float_of_nat n"
    and "float_of_nat n \<le> 2 ^ 53 * 2 ^ rshift n 1"
proof -
  let ?k = "rshift n 1"
  from assms show f: "float_of_nat n = round_half_even n (2 ^ ?k) * 2 ^ ?k"
    by (simp add: float_of_nat_def Let_def)
  from assms have "2 ^ 52 * 1 \<le> n" by simp
  from rshift_ge [OF this] show ge: "2 ^ 52 * 2 ^ ?k \<le> n" by simp
  from rshift_lt [of 1 n] show lt: "n < 2 ^ 53 * 2 ^ ?k" by simp
  from ge have "2 ^ 52 \<le> round_half_even n (2 ^ ?k)"
    by (intro round_half_even_lower) simp_all
  then show "2 ^ 52 * 2 ^ ?k \<le> float_of_nat n"
    unfolding f by (rule mult_le_mono1)
  from lt have "round_half_even n (2 ^ ?k) \<le> 2 ^ 53"
    by (intro round_half_even_le) simp_all
  then show "float_of_nat n \<le> 2 ^ 53 * 2 ^ ?k"
    unfolding f by (rule mult_le_mono1)
qed

lemma float_of_nat_mono:
  assumes "c \<le> n"
  shows "float_of_nat c \<le> float_of_nat n"
proof (cases "n < 2 ^ 53")
  case True
  with assms show ?thesis by (simp add: float_of_nat_small)
next
  case False
  then have n: "2 ^ 53 \<le> n" by simp
  let ?kn = "rshift n 1"
  note N = float_of_nat_large [OF n]
  show ?thesis
  proof (cases "c < 2 ^ 53")
    case True
    have "0 < ?kn"
    proof (rule ccontr)
      assume "\<not> 0 < ?kn"
      with N(3) n show False by simp
    qed
    then have "(2::nat) ^ 1 \<le> 2 ^ ?kn" by (intro power_increasing) simp_all
    then have "(2::nat) ^ 52 * 2 ^ 1 \<le> 2 ^ 52 * 2 ^ ?kn" by (rule mult_le_mono2)
    with N(4) have "(2::nat) ^ 53 \<le> float_of_nat n" by simp
    with True show ?thesis by (simp add: float_of_nat_small)
  next
    case False
    then have c: "2 ^ 53 \<le> c" by simp
    let ?kc = "rshift c 1"
    note C = float_of_nat_large [OF c]
    from C(2) assms N(3) have "(2::nat) ^ 52 * 2 ^ ?kc < 2 ^ 53 * 2 ^ ?kn" by linarith
    then have "(2::nat) ^ (52 + ?kc) < 2 ^ (53 + ?kn)" by (simp only: power_add)
    then have "52 + ?kc < 53 + ?kn"
      by (simp only: power_strict_increasing_iff one_less_numeral_iff semiring_norm(76))
    then have le: "?kc \<le> ?kn" by simp
    show ?thesis
    proof (cases "?kc = ?kn")
      case True
      have "round_half_even c (2 ^ ?kn) \<le> round_half_even n (2 ^ ?kn)"
        using assms by (intro round_half_even_mono) simp_all
      then have "round_half_even c (2 ^ ?kn) * 2 ^ ?kn \<le> round_half_even n (2 ^ ?kn) * 2 ^ ?kn"
        by (rule mult_le_mono1)
      then show ?thesis using C(1) N(1) True by simp
    next
      case False
      with le have "Suc ?kc \<le> ?kn" by simp
      then have "(2::nat) ^ Suc ?kc \<le> 2 ^ ?kn" by (intro power_increasing) simp_all
      then have "(2::nat) ^ 52 * 2 ^ Suc ?kc \<le> 2 ^ 52 * 2 ^ ?kn" by (rule mult_le_mono2)
      moreover have "(2::nat) ^ 53 * 2 ^ ?kc = 2 ^ 52 * 2 ^ Suc ?kc" by simp
      ultimately have "(2::nat) ^ 53 * 2 ^ ?kc \<le> 2 ^ 52 * 2 ^ ?kn" by (simp only:)
      with C(5) N(4) show ?thesis by linarith
    qed
  qed
qed

lemma float_of_nat_pos: "0 < n \<Longrightarrow> 0 < float_of_nat n"
  using float_of_nat_mono [of 1 n] by (simp add: float_of_nat_small)

lemma float_div_nonneg: "0 \<le> float_div n d"
  by (simp add: float_div_def Let_def)

lemma float_div_le_1:
  assumes "x \<le> y" "0 < y"
  shows "float_div x y \<le> 1"
proof -
  define k where "k = min (lshift x y) 1074"
  from assms(2) have "y < 2 ^ 53 * y" by simp
  with assms(1) have "x < 2 ^ 53 * y" by (rule le_less_trans)
  then have f: "float_div x y = of_nat (round_half_even (x * 2 ^ k) y) / 2 ^ k"
    by (simp add: float_div_def Let_def k_def)
  from assms(1) have "x * 2 ^ k \<le> 2 ^ k * y" by (simp add: mult.commute)
  from round_half_even_le [OF assms(2) this] have "round_half_even (x * 2 ^ k) y \<le> 2 ^ k" .
  then have "(of_nat (round_half_even (x * 2 ^ k) y) :: rat) \<le> of_nat (2 ^ k)"
    by (simp only: of_nat_le_iff)
  then show ?thesis unfolding f by (simp add: divide_le_eq)
qed

lemma np_true_divide_range:
  assumes "c \<le> n" "0 < n"
  shows "np_true_divide c n = Fin (float_div (float_of_nat c) (float_of_nat n))"
    and "0 \<le> float_div (float_of_nat c) (float_of_nat n)"
    and "float_div (float_of_nat c) (float_of_nat n) \<le> 1"
proof -
  from assms show "np_true_divide c n = Fin (float_div (float_of_nat c) (float_of_nat n))"
    by (simp add: np_true_divide_def)
  show "0 \<le> float_div (float_of_nat c) (float_of_nat n)" by (rule float_div_nonneg)
  from assms show "float_div (float_of_nat c) (float_of_nat n) \<le> 1"
    by (intro float_div_le_1 float_of_nat_mono float_of_nat_pos)
qed

lemmas bc_eval = batch_count_alt float_div_trunc_def round_half_even_def Let_def
  lshift.simps rshift.simps

lemma mk_response_predictions:
  "mk_response rs ''predictions'' =
     Some (map (\<lambda>(l, s). [''predicted_label'' \<mapsto> l, ''score'' \<mapsto> s]) rs)"
  by (simp add: mk_response_def)

lemma mk_response_labels:
  "map (\<lambda>r. r ''predicted_label'') (map (\<lambda>(l, s). [''predicted_label'' \<mapsto> l, ''score'' \<mapsto> s]) rs)
     = map (\<lambda>x. Some (fst x)) rs"
  by (auto split: prod.splits)

lemma predicted_labels_mk:
  "predicted_labels (map (\<lambda>(l, s). [''predicted_label'' \<mapsto> l, ''score'' \<mapsto> s]) rs) = Inr (map fst rs)"
  by (simp add: predicted_labels_Inr case_prod_beta)

lemmas run_eval = fst_runBatched bc_eval batch_loop_step rowwise_def mk_response_def getitem_def
  batch_of_def py_slice_def

lemma raises_on_call_prefix:
  assumes wf: "\<And>batch. \<exists>ps ls. answer batch ''predictions'' = Some ps \<and> predicted_labels ps = Inr ls"
    and "service st + length is \<le> k"
  shows "\<exists>st'. batch_loop (raises_on_call k e answer) X b is st = (Inr (), st') \<and>
           service st' = service st + length is \<and>
           calls st' = calls st @ map (\<lambda>i. (batch_of X b i, Inr (answer (batch_of X b i)))) is"
  using assms(2)
proof (induction "is" arbitrary: st)
  case Nil
  show ?case by simp
next
  case (Cons i "is")
  from wf [of "batch_of X b i"] obtain ps ls where
    a: "answer (batch_of X b i) ''predictions'' = Some ps" "predicted_labels ps = Inr ls"
    by blast
  from Cons.prems have ne: "service st \<noteq> k" by simp
  define st2 where "st2 = st\<lparr>calls := calls st @ [(batch_of X b i, Inr (answer (batch_of X b i)))],
      service := Suc (service st), predictions := predictions st @ ls\<rparr>"
  have step: "batch_loop (raises_on_call k e answer) X b (i # is) st =
              batch_loop (raises_on_call k e answer) X b is st2"
    unfolding batch_loop_step Let_def st2_def by (simp add: raises_on_call_def ne a)
  from Cons.prems have "service st2 + length is \<le> k" by (simp add: st2_def)
  from Cons.IH [OF this] obtain st' where
    "batch_loop (raises_on_call k e answer) X b is st2 = (Inr (), st')"
    "service st' = service st2 + length is"
    "calls st' = calls st2 @ map (\<lambda>i. (batch_of X b i, Inr (answer (batch_of X b i)))) is"
    by blast
  then show ?case unfolding step by (simp add: st2_def)
qed

lemma batch_loop_submits:
  assumes "\<And>batch s. \<exists>result ps ls. fst (predict batch s) = Inr result \<and>
             result ''predictions'' = Some ps \<and> predicted_labels ps = Inr ls"
  shows "\<exists>st'. batch_loop predict X b is st = (Inr (), st') \<and>
           map fst (calls st') = map fst (calls st) @ map (batch_of X b) is"
proof (induction "is" arbitrary: st)
  case Nil
  show ?case by simp
next
  case (Cons i "is")
  from assms [of "batch_of X b i" "service st"] obtain result ps ls where
    r: "fst (predict (batch_of X b i) (service st)) = Inr result"
       "result ''predictions'' = Some ps" "predicted_labels ps = Inr ls"
    by blast
  define st2 where "st2 = st\<lparr>calls := calls st @ [(batch_of X b i, Inr result)],
      service := snd (predict (batch_of X b i) (service st)),
      predictions := predictions st @ ls\<rparr>"
  have step: "batch_loop predict X b (i # is) st = batch_loop predict X b is st2"
    unfolding batch_loop_step Let_def st2_def by (simp add: r)
  from Cons.IH [of st2] obtain st' where
    "batch_loop predict X b is st2 = (Inr (), st')"
    "map fst (calls st') = map fst (calls st2) @ map (batch_of X b) is"
    by blast
  then show ?case unfolding step by (simp add: st2_def)
qed

lemma np_sum_elementwise:
  assumes "length xs = length ys"
  shows "np_sum (BoolArray (map2 float_eq xs ys)) =
           card {i. i < length xs \<and> float_eq (xs ! i) (ys ! i)}"
proof -
  have "{i. i < length (map2 float_eq xs ys) \<and> id (map2 float_eq xs ys ! i)} =
        {i. i < length xs \<and> float_eq (xs ! i) (ys ! i)}"
    using assms by auto
  then show ?thesis by (simp add: length_filter_conv_card)
qed

lemma np_sum_broadcast:
  "np_sum (BoolArray (map P xs)) = card {i. i < length xs \<and> P (xs ! i)}"
proof -
  have "{i. i < length (map P xs) \<and> id (map P xs ! i)} = {i. i < length xs \<and> P (xs ! i)}"
    by auto
  then show ?thesis by (simp add: length_filter_conv_card)
qed

lemmas acc_eval = computeAccuracy_def np_equal_def np_true_divide_def float_eq_def float_of_nat_def
  float_div_def round_half_even_def Let_def lshift.simps rshift.simps




text \<open>
  The events of the serialiser are events of the function: one that writes a file
  leaves a disk write in the log of \<^verbatim>\<open>writeDatasetToProtobuf\<close>.
\<close>

lemma writeDatasetToProtobuf_relays_serialiser_io:
  "io_log (snd (writeDatasetToProtobuf
      (\<lambda>X y buf w. ((None, buf), w\<lparr>io_log := io_log w @ [DiskWrite ''/tmp/x'' []]\<rparr>))
      (\<lambda>b k body. None) 0 1 ''bucket'' ''protobuf'' ''train''
      \<lparr>objects = Map.empty :: nat \<rightharpoonup> string, s3 = Map.empty, io_log = [] :: nat io_event list\<rparr>))
     = [DiskWrite ''/tmp/x'' [], S3Upload ''bucket'' ''protobuf/train'' []]"
  by (simp add: writeDatasetToProtobuf_def upload_fileobj_def read_to_end_def seek_def BytesIO_def
      Let_def)

section \<open>The claims\<close>

text \<open>
  C1, for datasets of fewer than \<open>2^53\<close> rows. With a positive batch size and an
  endpoint that answers every call, the cell submits exactly
  \<open>length X div batch_size\<close> batches; batch \<open>i\<close> is rows \<open>i * batch_size\<close> up to
  \<open>(i + 1) * batch_size - 1\<close>, so each has exactly \<open>batch_size\<close> rows and they
  follow one another without gap or overlap; and the rows from position
  \<open>(length X div batch_size) * batch_size\<close> on are never submitted.
\<close>

theorem runBatched_partition:
  assumes b: "0 < batch_size"
    and n: "length X < 2 ^ 53"
    and answers: "\<And>batch s. \<exists>result ps ls. fst (predict batch s) = Inr result \<and>
           result ''predictions'' = Some ps \<and> predicted_labels ps = Inr ls"
  shows "\<exists>out st. runBatched predict X batch_size s0 = (Inr out, st) \<and>
           length (calls st) = length X div nat batch_size \<and>
           (\<forall>i < length X div nat batch_size.
              fst (calls st ! i) = map ((!) X) [i * nat batch_size ..< (i + 1) * nat batch_size]) \<and>
           concat (map fst (calls st)) = take (length X div nat batch_size * nat batch_size) X"
proof -
  let ?st0 = "\<lparr>predictions = [], calls = [], service = s0\<rparr> :: ('a, 'b) run_state"
  let ?b = "nat batch_size"
  let ?B = "length X div ?b"
  from b n have count: "batch_count (length X) batch_size = Inr (int ?B)"
    by (rule batch_count_small)
  from batch_loop_submits [of predict X ?b "[0..<?B]" ?st0, OF answers]
  obtain st where
    loop: "batch_loop predict X ?b [0..<?B] ?st0 = (Inr (), st)"
    and cs: "map fst (calls st) = map (batch_of X ?b) [0..<?B]"
    by auto
  have run: "runBatched predict X batch_size s0 = (Inr (predictions st), st)"
    by (simp add: runBatched_def count loop)
  from cs have len: "length (calls st) = ?B"
    by (metis length_map length_upt diff_zero)
  have nth: "fst (calls st ! i) = map ((!) X) [i * ?b ..< (i + 1) * ?b]" if "i < ?B" for i
  proof -
    from that have "(i + 1) * ?b \<le> ?B * ?b" by (intro mult_le_mono1) simp
    also have "\<dots> \<le> length X" by simp
    finally have "batch_of X ?b i = map ((!) X) [i * ?b ..< (i + 1) * ?b]"
      by (rule batch_of_nth)
    moreover from that len have "fst (calls st ! i) = map fst (calls st) ! i" by simp
    moreover from that have "map (batch_of X ?b) [0..<?B] ! i = batch_of X ?b i" by simp
    ultimately show ?thesis by (simp add: cs)
  qed
  have "concat (map fst (calls st)) = take (?B * ?b) X"
    unfolding cs by (rule concat_batches)
  with run len nth show ?thesis by blast
qed

theorem runBatched_partition_witness:
  "(0::int) < 2 \<and> length [4, 5, 3, 9, 7 :: nat] < 2 ^ 53 \<and>
   (\<exists>out st. runBatched (rowwise (\<lambda>x. (Fin (of_nat x), Fin 0))) [4, 5, 3, 9, 7 :: nat] 2 () = (Inr out, st) \<and>
      length (calls st) = length [4, 5, 3, 9, 7 :: nat] div nat 2 \<and>
      (\<forall>i < length [4, 5, 3, 9, 7 :: nat] div nat 2.
         fst (calls st ! i) = map ((!) [4, 5, 3, 9, 7]) [i * nat 2 ..< (i + 1) * nat 2]) \<and>
      concat (map fst (calls st)) = take (length [4, 5, 3, 9, 7 :: nat] div nat 2 * nat 2) [4, 5, 3, 9, 7])"
proof -
  have b: "(0::int) < 2" by simp
  have n: "length [4, 5, 3, 9, 7 :: nat] < 2 ^ 53" by simp
  have a: "\<exists>result ps ls. fst (rowwise (\<lambda>x. (Fin (of_nat x), Fin 0)) batch s) = Inr result \<and>
           result ''predictions'' = Some ps \<and> predicted_labels ps = Inr ls"
    for batch :: "nat list" and s :: unit
    unfolding rowwise_def fst_conv
    by (intro exI conjI, rule refl, rule mk_response_predictions, rule predicted_labels_mk)
  from b n runBatched_partition [of 2 "[4, 5, 3, 9, 7]" "rowwise (\<lambda>x. (Fin (of_nat x), Fin 0))" "()", OF b n a]
  show ?thesis by (intro conjI)
qed

text \<open>
  C1 for every dataset fails: the batch count is a rounded quotient. With
  \<open>2^54 + 1\<close> rows and a batch size of \<open>2^53 + 1\<close> the quotient
  \<open>2 - 1 / (2^53 + 1)\<close> rounds to \<open>2.0\<close>: two batches are submitted where the floor
  is 1, the second one row short, made of rows that lie beyond the last full batch.
\<close>

theorem runBatched_partition_counterexample:
  "map (\<lambda>c. length (fst c))
     (calls (snd (runBatched (\<lambda>batch s. (Inr [''predictions'' \<mapsto> []], s))
        (replicate 18014398509481985 ()) 9007199254740993 ())))
     = [9007199254740993, 9007199254740992] \<and>
   (18014398509481985 :: nat) div 9007199254740993 = 1"
  by (simp add: runBatched_def bc_eval batch_loop_step getitem_def batch_of_def py_slice_def upt_rec)

text \<open>
  C3, for non-empty sequences. For two label sequences of the same, non-zero length the
  accuracy is the binary64 quotient of the number of positions \<open>i\<close> at which
  \<open>predicted[i] == actual[i]\<close> holds exactly, by the common length, and lies between 0
  and 1. In particular \<open>computeAccuracy([4,5,3],[4,5,3])\<close> is \<open>1.0\<close> and
  \<open>computeAccuracy([4,5,3],[4,5,2])\<close> is the binary64 value of \<open>2/3\<close>.
\<close>

theorem computeAccuracy_equal_length:
  "(length predicted = length actual \<and> actual \<noteq> [] \<longrightarrow>
     (\<exists>acc. computeAccuracy legacy predicted actual = Inr (Fin acc) \<and>
        acc = float_div
                (float_of_nat (card {i. i < length actual \<and> float_eq (actual ! i) (predicted ! i)}))
                (float_of_nat (length actual)) \<and>
        0 \<le> acc \<and> acc \<le> 1 \<and>
        cell_53 legacy predicted actual = Inr (Fin acc))) \<and>
   computeAccuracy legacy [Fin 4, Fin 5, Fin 3] [Fin 4, Fin 5, Fin 3] = Inr (Fin 1) \<and>
   computeAccuracy legacy [Fin 4, Fin 5, Fin 3] [Fin 4, Fin 5, Fin 2] = Inr (Fin (float_div 2 3)) \<and>
   float_div 2 3 = 6004799503160661 / 9007199254740992"
proof (intro conjI impI)
  assume "length predicted = length actual \<and> actual \<noteq> []"
  then have len: "length actual = length predicted" and ne: "0 < length actual" by simp_all
  let ?c = "card {i. i < length actual \<and> float_eq (actual ! i) (predicted ! i)}"
  have "?c \<le> card {i. i < length actual}"
    by (intro card_mono) auto
  then have c: "?c \<le> length actual" by simp
  have "computeAccuracy legacy predicted actual = Inr (np_true_divide ?c (length actual))"
    by (simp add: computeAccuracy_def np_equal_def len np_sum_elementwise [OF len] del: np_sum.simps)
  moreover from len ne have "predicted \<noteq> []" by auto
  ultimately show "\<exists>acc. computeAccuracy legacy predicted actual = Inr (Fin acc) \<and>
        acc = float_div (float_of_nat ?c) (float_of_nat (length actual)) \<and> 0 \<le> acc \<and> acc \<le> 1 \<and>
        cell_53 legacy predicted actual = Inr (Fin acc)"
    using np_true_divide_range [OF c ne] by (simp add: cell_53_def)
next
  show "computeAccuracy legacy [Fin 4, Fin 5, Fin 3] [Fin 4, Fin 5, Fin 3] = Inr (Fin 1)"
    by (simp add: acc_eval)
next
  show "computeAccuracy legacy [Fin 4, Fin 5, Fin 3] [Fin 4, Fin 5, Fin 2] = Inr (Fin (float_div 2 3))"
    by (simp add: acc_eval)
next
  show "float_div 2 3 = 6004799503160661 / 9007199254740992"
    by (simp add: acc_eval)
qed

theorem computeAccuracy_equal_length_witness:
  "length [Fin 4, Fin 5, Fin 3] = length [Fin 4, Fin 5, Fin 2] \<and> [Fin 4, Fin 5, Fin 2] \<noteq> [] \<and>
   (\<exists>acc. computeAccuracy True [Fin 4, Fin 5, Fin 3] [Fin 4, Fin 5, Fin 2] = Inr (Fin acc) \<and>
      0 \<le> acc \<and> acc \<le> 1)"
  using computeAccuracy_equal_length [of "[Fin 4, Fin 5, Fin 3]" "[Fin 4, Fin 5, Fin 2]" True]
  by auto

text \<open>
  C3 for every pair of equal-length sequences fails at the empty pair: the count 0 is
  divided by the length 0, which on NumPy scalars is \<open>nan\<close>, not a number in \<open>[0,1]\<close>;
  and the cell, which looks at \<^verbatim>\<open>predictions[0]\<close> first, raises \<^verbatim>\<open>IndexError\<close>.
\<close>

theorem computeAccuracy_empty_is_nan:
  "computeAccuracy True [] [] = Inr NaN \<and> computeAccuracy False [] [] = Inr NaN \<and>
   cell_53 True [] [] = Inl IndexError \<and> cell_53 False [] [] = Inl IndexError"
  by (simp add: computeAccuracy_def cell_53_def np_equal_def np_true_divide_def)

text \<open>
  C4. Provided the batch count can be computed and the endpoint answers every batch with
  one result per row, in row order (the label of a row being \<open>f row\<close>), the cell
  returns the labels of the submitted rows in the order of submission: the \<open>j\<close>-th
  output is the label of the \<open>j\<close>-th row submitted, there are as many outputs as rows
  submitted, and the rows submitted are an initial segment of the dataset, in its order.
\<close>

theorem runBatched_order_and_length:
  assumes count: "batch_count (length X) batch_size = Inr batches"
    and answers: "\<And>batch s. \<exists>result ps. fst (predict batch s) = Inr result \<and>
           result ''predictions'' = Some ps \<and>
           map (\<lambda>r. r ''predicted_label'') ps = map (\<lambda>row. Some (f row)) batch"
  shows "\<exists>out st. runBatched predict X batch_size s0 = (Inr out, st) \<and>
           out = map f (concat (map fst (calls st))) \<and>
           length out = length (concat (map fst (calls st))) \<and>
           concat (map fst (calls st)) = take (nat batches * nat batch_size) X"
proof -
  let ?st0 = "\<lparr>predictions = [], calls = [], service = s0\<rparr> :: ('a, 'b) run_state"
  let ?b = "nat batch_size"
  have "\<exists>result ps. fst (predict batch s) = Inr result \<and> result ''predictions'' = Some ps \<and>
          map (\<lambda>r. r ''predicted_label'') ps = map Some (map f batch)" for batch s
    using answers [of batch s] by (simp add: comp_def)
  from batch_loop_completes [of predict "map f", OF this, of X ?b "[0..<nat batches]" ?st0]
  obtain st where
    loop: "batch_loop predict X ?b [0..<nat batches] ?st0 = (Inr (), st)"
    and preds: "predictions st = concat (map (\<lambda>i. map f (batch_of X ?b i)) [0..<nat batches])"
    and cs: "map fst (calls st) = map (batch_of X ?b) [0..<nat batches]"
    by auto
  have rows: "concat (map fst (calls st)) = take (nat batches * ?b) X"
    unfolding cs by (rule concat_batches)
  have "predictions st = map f (concat (map fst (calls st)))"
    unfolding cs preds by (simp add: map_concat comp_def)
  moreover have "runBatched predict X batch_size s0 = (Inr (predictions st), st)"
    by (simp add: runBatched_def count loop)
  ultimately show ?thesis using rows by simp
qed

theorem runBatched_order_and_length_witness:
  "batch_count (length [4, 5, 3 :: nat]) 2 = Inr 1 \<and>
   (\<exists>out st. runBatched (rowwise (\<lambda>x. (Fin (of_nat x), Fin 0))) [4, 5, 3 :: nat] 2 () = (Inr out, st) \<and>
      out = map (\<lambda>x. Fin (of_nat x)) (concat (map fst (calls st))) \<and>
      length out = length (concat (map fst (calls st))) \<and>
      concat (map fst (calls st)) = take (nat 1 * nat 2) [4, 5, 3])"
proof -
  have c: "batch_count (length [4, 5, 3 :: nat]) 2 = Inr 1"
    by (simp add: bc_eval)
  have a: "\<exists>result ps. fst (rowwise (\<lambda>x. (Fin (of_nat x), Fin 0)) batch s) = Inr result \<and>
           result ''predictions'' = Some ps \<and>
           map (\<lambda>r. r ''predicted_label'') ps = map (\<lambda>row. Some (Fin (of_nat row))) batch"
    for batch :: "nat list" and s :: unit
    by (simp add: rowwise_def mk_response_def)
  from c runBatched_order_and_length [of "[4, 5, 3]" 2 1 "rowwise (\<lambda>x. (Fin (of_nat x), Fin 0))"
      "\<lambda>x. Fin (of_nat x)" "()", OF c a]
  show ?thesis by blast
qed




text \<open>
  C6, as the code has it. When call number \<open>k\<close> to the endpoint raises \<open>e\<close> (the
  earlier calls having been answered), the cell raises \<open>e\<close> itself: nothing is wrapped
  around it. Batches \<open>0..k\<close> have each been submitted once, in order, and nothing after
  batch \<open>k\<close>; the endpoint has been called \<open>k + 1\<close> times; and no predictions are
  returned.
\<close>

theorem runBatched_propagates_failure:
  assumes count: "batch_count (length X) batch_size = Inr batches"
    and k: "int k < batches"
    and wf: "\<And>batch. \<exists>ps ls. answer batch ''predictions'' = Some ps \<and> predicted_labels ps = Inr ls"
  shows "\<exists>st. runBatched (raises_on_call k e answer) X batch_size 0 = (Inl e, st) \<and>
           calls st =
             map (\<lambda>i. (batch_of X (nat batch_size) i,
                        if i = k then Inl e else Inr (answer (batch_of X (nat batch_size) i))))
               [0..<Suc k] \<and>
           service st = Suc k"
proof -
  let ?st0 = "\<lparr>predictions = [], calls = [], service = 0\<rparr> :: ('a, nat) run_state"
  let ?b = "nat batch_size"
  let ?p = "raises_on_call k e answer"
  from k have "k < nat batches" by simp
  then have idx: "[0..<nat batches] = [0..<k] @ k # [Suc k..<nat batches]"
    by (metis upt_conv_Cons upt_add_eq_append le0 le_add_diff_inverse less_imp_le_nat plus_nat.add_0)
  from raises_on_call_prefix [of answer ?st0 "[0..<k]" k e X ?b, OF wf]
  obtain st' where
    pre: "batch_loop ?p X ?b [0..<k] ?st0 = (Inr (), st')"
    and sv: "service st' = k"
    and cs: "calls st' = map (\<lambda>i. (batch_of X ?b i, Inr (answer (batch_of X ?b i)))) [0..<k]"
    by auto
  define st where "st = st'\<lparr>calls := calls st' @ [(batch_of X ?b k, Inl e)], service := Suc k\<rparr>"
  have "batch_loop ?p X ?b (k # [Suc k..<nat batches]) st' = (Inl e, st)"
    unfolding batch_loop_step Let_def st_def by (simp add: raises_on_call_def sv)
  with pre have "batch_loop ?p X ?b [0..<nat batches] ?st0 = (Inl e, st)"
    unfolding idx batch_loop_append by simp
  then have "runBatched ?p X batch_size 0 = (Inl e, st)"
    by (simp add: runBatched_def count)
  moreover have "calls st = map (\<lambda>i. (batch_of X ?b i,
                        if i = k then Inl e else Inr (answer (batch_of X ?b i)))) [0..<Suc k]"
    by (simp add: st_def cs)
  moreover have "service st = Suc k" by (simp add: st_def)
  ultimately show ?thesis by blast
qed

theorem runBatched_propagates_failure_witness:
  "batch_count (length [10, 20, 30 :: nat]) 1 = Inr 3 \<and> int 1 < 3 \<and>
   (\<exists>st. runBatched (raises_on_call 1 (ServiceError ''timeout'')
              (\<lambda>batch. mk_response (map (\<lambda>x. (Fin 4, Fin 4)) batch))) [10, 20, 30 :: nat] 1 0
            = (Inl (ServiceError ''timeout''), st) \<and>
          calls st =
            map (\<lambda>i. (batch_of [10, 20, 30 :: nat] (nat 1) i,
                       if i = 1 then Inl (ServiceError ''timeout'')
                       else Inr (mk_response (map (\<lambda>x. (Fin 4, Fin 4)) (batch_of [10, 20, 30 :: nat] (nat 1) i)))))
              [0..<Suc 1] \<and>
          service st = Suc 1)"
proof -
  have c: "batch_count (length [10, 20, 30 :: nat]) 1 = Inr 3"
    by (simp add: bc_eval)
  have k: "int 1 < 3" by simp
  have wf: "\<exists>ps ls. mk_response (map (\<lambda>x. (Fin 4, Fin 4)) batch) ''predictions'' = Some ps \<and>
              predicted_labels ps = Inr ls" for batch :: "nat list"
    by (intro exI conjI, rule mk_response_predictions, rule predicted_labels_mk)
  from c k runBatched_propagates_failure [of "[10, 20, 30]" 1 3 1
      "\<lambda>batch. mk_response (map (\<lambda>x. (Fin 4, Fin 4)) batch)" "ServiceError ''timeout''", OF c k wf]
  show ?thesis by (intro conjI)
qed

text \<open>
  C6, as the spec has it, asks for an error that carries the index of the failed batch
  and its row range. The exception that leaves the cell is the endpoint's own: it is the
  same value whether batch 0 or batch 1 failed.
\<close>

theorem runBatched_error_has_no_batch_index:
  "fst (runBatched (raises_on_call 0 (ServiceError ''timeout'')
          (\<lambda>batch. mk_response (map (\<lambda>x. (Fin 4, Fin 4)) batch))) [10, 20, 30 :: nat] 1 0)
     = Inl (ServiceError ''timeout'') \<and>
   fst (runBatched (raises_on_call 1 (ServiceError ''timeout'')
          (\<lambda>batch. mk_response (map (\<lambda>x. (Fin 4, Fin 4)) batch))) [10, 20, 30 :: nat] 1 0)
     = Inl (ServiceError ''timeout'')"
  by (simp add: run_eval raises_on_call_def upt_rec)

text \<open>
  C7, as the code has it. Nothing checks the lengths. For sequences of unequal length:
  if \<open>predicted\<close> has length 1 it is broadcast against \<open>actual\<close>, and a number is
  returned; if \<open>actual\<close> has length 1 it is broadcast against \<open>predicted\<close>, and a
  number is returned; otherwise the comparison itself decides: NumPy before 1.25 yields
  \<open>False\<close> and the result is \<open>0 / len(actual)\<close>, later versions raise
  \<open>ValueError\<close>.
\<close>

theorem computeAccuracy_unequal_length:
  assumes "length predicted \<noteq> length actual"
  shows "computeAccuracy legacy predicted actual =
     (if length predicted = 1
      then Inr (np_true_divide
                  (card {i. i < length actual \<and> float_eq (actual ! i) (predicted ! 0)})
                  (length actual))
      else if length actual = 1
      then Inr (np_true_divide
                  (card {i. i < length predicted \<and> float_eq (actual ! 0) (predicted ! i)}) 1)
      else if legacy then Inr (np_true_divide 0 (length actual))
      else Inl ValueError)"
proof -
  from assms have ne: "length actual \<noteq> length predicted" by simp
  then show ?thesis
    by (simp add: computeAccuracy_def np_equal_def np_sum_broadcast del: np_sum.simps(1))
qed

theorem computeAccuracy_unequal_length_witness:
  "length [Fin 4, Fin 5] \<noteq> length [Fin 4, Fin 5, Fin 3] \<and>
   computeAccuracy False [Fin 4, Fin 5] [Fin 4, Fin 5, Fin 3] = Inl ValueError \<and>
   computeAccuracy True [Fin 4, Fin 5] [Fin 4, Fin 5, Fin 3] = Inr (Fin 0)"
  using computeAccuracy_unequal_length [of "[Fin 4, Fin 5]" "[Fin 4, Fin 5, Fin 3]" False]
    computeAccuracy_unequal_length [of "[Fin 4, Fin 5]" "[Fin 4, Fin 5, Fin 3]" True]
  by (simp add: np_true_divide_def float_of_nat_def float_div_def round_half_even_def lshift.simps)

text \<open>
  C7 as the spec has it fails: a prediction array of length 1 against three labels is
  broadcast, and the result is the binary64 value of \<open>1/3\<close>, under either NumPy
  behaviour.
\<close>

theorem computeAccuracy_broadcasts:
  "computeAccuracy True [Fin 4] [Fin 4, Fin 5, Fin 3] = Inr (Fin (6004799503160661 / 18014398509481984)) \<and>
   computeAccuracy False [Fin 4] [Fin 4, Fin 5, Fin 3] = Inr (Fin (6004799503160661 / 18014398509481984)) \<and>
   cell_53 True [Fin 4] [Fin 4, Fin 5, Fin 3] = Inr (Fin (6004799503160661 / 18014398509481984)) \<and>
   cell_53 False [Fin 4] [Fin 4, Fin 5, Fin 3] = Inr (Fin (6004799503160661 / 18014398509481984))"
  by (simp add: acc_eval cell_53_def)

text \<open>
  C9. The batch count is the truncated binary64 quotient (when that is finite), not the
  integer floor. Where the exact quotient \<open>n / b\<close> is a binary64 number, that is
  \<open>m * 2^(c - a)\<close> with a significand \<open>m\<close> below \<open>2^53\<close> and an exponent in range,
  the count is \<open>n div b\<close>. For large operands it is not: \<open>2^54 + 1\<close> rows in batches
  of \<open>2^53 + 1\<close> give 2 where the floor is 1, and two calls are made to the endpoint;
  \<open>2^53 + 1\<close> rows in batches of 1 give \<open>2^53\<close>, one less than the floor.
\<close>

theorem batch_count_truncated_float_quotient:
  "(0 < b \<and> float_div n b < 2 ^ 1024 \<longrightarrow> batch_count n (int b) = Inr \<lfloor>float_div n b\<rfloor>) \<and>
   (0 < b \<and> m < 2 ^ 53 \<and> a \<le> 1074 \<and> c \<le> 971 \<and> n * 2 ^ a = m * 2 ^ c * b
      \<longrightarrow> batch_count n (int b) = Inr (int (n div b))) \<and>
   batch_count 18014398509481985 9007199254740993 = Inr 2 \<and>
   (18014398509481985 :: nat) div 9007199254740993 = 1 \<and>
   length (calls (snd (runBatched (\<lambda>batch s. (Inr [''predictions'' \<mapsto> []], s))
      (replicate 18014398509481985 ()) 9007199254740993 ()))) = 2 \<and>
   batch_count 9007199254740993 1 = Inr 9007199254740992 \<and>
   (9007199254740993 :: nat) div 1 = 9007199254740993"
proof (intro conjI impI)
  assume "0 < b \<and> float_div n b < 2 ^ 1024"
  then show "batch_count n (int b) = Inr \<lfloor>float_div n b\<rfloor>"
    by (simp add: batch_count_def Let_def)
next
  assume "0 < b \<and> m < 2 ^ 53 \<and> a \<le> 1074 \<and> c \<le> 971 \<and> n * 2 ^ a = m * 2 ^ c * b"
  then show "batch_count n (int b) = Inr (int (n div b))"
    by (intro batch_count_exact [of b m a c n]) simp_all
next
  show "batch_count 18014398509481985 9007199254740993 = Inr 2"
    by (simp add: bc_eval)
next
  show "(18014398509481985 :: nat) div 9007199254740993 = 1" by simp
next
  show "length (calls (snd (runBatched (\<lambda>batch s. (Inr [''predictions'' \<mapsto> []], s))
      (replicate 18014398509481985 ()) 9007199254740993 ()))) = 2"
    by (simp add: runBatched_def bc_eval batch_loop_step getitem_def batch_of_def py_slice_def upt_rec)
next
  show "batch_count 9007199254740993 1 = Inr 9007199254740992"
    by (simp add: bc_eval)
next
  show "(9007199254740993 :: nat) div 1 = 9007199254740993" by simp
qed

theorem batch_count_truncated_float_quotient_witness:
  "(0::nat) < 2 \<and> (7::nat) < 2 ^ 53 \<and> (1::nat) \<le> 1074 \<and> (0::nat) \<le> 971 \<and>
   (7::nat) * 2 ^ 1 = 7 * 2 ^ 0 * 2 \<and> batch_count 7 (int 2) = Inr (int (7 div 2)) \<and>
   float_div 7 2 < 2 ^ 1024 \<and> batch_count 7 (int 2) = Inr \<lfloor>float_div 7 2\<rfloor>"
proof -
  have fin: "float_div 7 2 < 2 ^ 1024"
    by (simp add: float_div_def round_half_even_def Let_def lshift.simps)
  note inst = batch_count_truncated_float_quotient [of 2 7 7 1 0]
  from inst fin have h1: "batch_count 7 (int 2) = Inr \<lfloor>float_div 7 2\<rfloor>" by simp
  from inst have h2: "batch_count 7 (int 2) = Inr (int (7 div 2))" by simp
  show ?thesis by (intro conjI; (rule h1 | rule h2 | rule fin | simp))
qed

text \<open>
  C10. The output of the batched loop holds only the \<^verbatim>\<open>predicted_label\<close> of each result:
  whenever the cell returns \<open>out\<close>, its \<open>j\<close>-th element is the \<^verbatim>\<open>predicted_label\<close> of the
  \<open>j\<close>-th result the endpoint returned (over all calls, in call order), and the two
  sequences have the same length. The \<^verbatim>\<open>score\<close> is discarded: deleting every
  \<^verbatim>\<open>score\<close> from the responses changes neither the output nor the exception raised.
\<close>

theorem runBatched_keeps_labels_only:
  "(runBatched predict X batch_size s0 = (Inr out, st) \<longrightarrow>
      map Some out =
        map (\<lambda>r. r ''predicted_label'') (concat (map call_predictions (calls st)))) \<and>
   fst (runBatched (drop_score predict) X batch_size s0) = fst (runBatched predict X batch_size s0)"
proof
  show "runBatched predict X batch_size s0 = (Inr out, st) \<longrightarrow>
      map Some out =
        map (\<lambda>r. r ''predicted_label'') (concat (map call_predictions (calls st)))"
  proof
    assume run: "runBatched predict X batch_size s0 = (Inr out, st)"
    let ?st0 = "\<lparr>predictions = [], calls = [], service = s0\<rparr> :: ('a, 'b) run_state"
    from run obtain batches u where
      "batch_loop predict X (nat batch_size) [0..<nat batches] ?st0 = (Inr u, st)"
      and out: "out = predictions st"
      by (auto simp: runBatched_def Let_def split: sum.splits prod.splits)
    from batch_loop_labels [OF this(1)] out show
      "map Some out = map (\<lambda>r. r ''predicted_label'') (concat (map call_predictions (calls st)))"
      by simp
  qed
next
  let ?st0 = "\<lparr>predictions = [], calls = [], service = s0\<rparr> :: ('a, 'b) run_state"
  have "fst (batch_loop (drop_score predict) X (nat batch_size) [0..<k] ?st0) =
        fst (batch_loop predict X (nat batch_size) [0..<k] ?st0) \<and>
        predictions (snd (batch_loop (drop_score predict) X (nat batch_size) [0..<k] ?st0)) =
        predictions (snd (batch_loop predict X (nat batch_size) [0..<k] ?st0))" for k
    by (rule batch_loop_drop_score) simp_all
  note same = this
  show "fst (runBatched (drop_score predict) X batch_size s0) =
        fst (runBatched predict X batch_size s0)"
  proof (cases "batch_count (length X) batch_size")
    case (Inl e)
    then show ?thesis by (simp add: fst_runBatched)
  next
    case (Inr batches)
    obtain r t where l1:
      "batch_loop (drop_score predict) X (nat batch_size) [0..<nat batches] ?st0 = (r, t)"
      by force
    obtain r' t' where l2:
      "batch_loop predict X (nat batch_size) [0..<nat batches] ?st0 = (r', t')"
      by force
    from same [of "nat batches"] l1 l2 have "r = r'" "predictions t = predictions t'"
      by simp_all
    with Inr l1 l2 show ?thesis by (simp add: fst_runBatched split: sum.splits)
  qed
qed

theorem runBatched_keeps_labels_only_witness:
  "runBatched (rowwise (\<lambda>x. (Fin (of_nat x), Fin 0))) [4, 5, 3 :: nat] 2 ()
     = (Inr [Fin 4, Fin 5], snd (runBatched (rowwise (\<lambda>x. (Fin (of_nat x), Fin 0))) [4, 5, 3 :: nat] 2 ())) \<and>
   map Some [Fin 4, Fin 5] =
     map (\<lambda>r. r ''predicted_label'')
       (concat (map call_predictions
          (calls (snd (runBatched (rowwise (\<lambda>x. (Fin (of_nat x), Fin 0))) [4, 5, 3 :: nat] 2 ())))))"
proof -
  let ?run = "runBatched (rowwise (\<lambda>x. (Fin (of_nat x), Fin 0))) [4, 5, 3 :: nat] 2 ()"
  have "fst ?run = Inr [Fin 4, Fin 5]"
    by (simp add: run_eval)
  then have run: "?run = (Inr [Fin 4, Fin 5], snd ?run)"
    by (metis prod.collapse)
  with runBatched_keeps_labels_only
    [of "rowwise (\<lambda>x. (Fin (of_nat x), Fin 0))" "[4, 5, 3]" 2 "()" "[Fin 4, Fin 5]" "snd ?run"]
  show ?thesis by blast
qed

end
